theory Spec2Isabelle
  imports Main
begin

section \<open>MimeAPI: the text cleaner and the command matcher\<close>

text \<open>
  The server cleans a transcribed or typed utterance (\<open>cleanTranscribedText\<close>) and
  resolves it against the commands a user has saved (\<open>findMatchingCommand\<close>): first
  the commands without a parameter, compared whole, then the commands with a parameter,
  compared by the text before and after the parameter.

  A JavaScript string is a sequence of UTF-16 code units. The model is over \<open>string\<close>,
  whose characters are the code units below 256 (ASCII and Latin-1). On such strings
  \<open>split('')\<close> and \<open>join('')\<close> are the identity on the list of characters,
  \<open>toLowerCase\<close> works unit by unit, and the white space of \<open>\s\<close> and of
  \<open>trim\<close> is the seven characters of \<open>isWhiteSpace\<close>.
\<close>

subsection \<open>JavaScript values and string operations\<close>

text \<open>
  The values a caller can pass (\<open>/execute-command\<close> hands over a field of the
  request body unchecked). Numbers carry an integer only: the cleaner's guard looks at
  whether the value is falsy and at its type, never at its magnitude.
\<close>

datatype js_value =
    JSUndefined
  | JSNull
  | JSBoolean bool
  | JSNumber int
  | JSString string
  | JSObject

text \<open>\<open>!v\<close>\<close>

fun falsy :: "js_value \<Rightarrow> bool" where
  "falsy JSUndefined = True"
| "falsy JSNull = True"
| "falsy (JSBoolean b) = (b = False)"
| "falsy (JSNumber n) = (n = 0)"
| "falsy (JSString s) = (s = [])"
| "falsy JSObject = False"

text \<open>\<open>typeof v\<close>\<close>

fun typeof :: "js_value \<Rightarrow> string" where
  "typeof JSUndefined = ''undefined''"
| "typeof JSNull = ''object''"
| "typeof (JSBoolean b) = ''boolean''"
| "typeof (JSNumber n) = ''number''"
| "typeof (JSString s) = ''string''"
| "typeof JSObject = ''object''"

text \<open>
  White space as \<open>\s\<close> and \<open>trim\<close> see it, among the code units below 256:
  tab, line feed, vertical tab, form feed, carriage return, space, no-break space.
\<close>

definition isWhiteSpace :: "char \<Rightarrow> bool" where
  "isWhiteSpace c =
     (c = CHR 0x09 \<or> c = CHR 0x0A \<or> c = CHR 0x0B \<or> c = CHR 0x0C \<or> c = CHR 0x0D
      \<or> c = CHR 0x20 \<or> c = CHR 0xA0)"

text \<open>\<open>s.replace(/\s+/g, ' ')\<close>: every maximal run of white space becomes one space.\<close>

function replaceWhiteSpaceRuns :: "string \<Rightarrow> string" where
  "replaceWhiteSpaceRuns [] = []"
| "replaceWhiteSpaceRuns (c # cs) =
     (if isWhiteSpace c then CHR 0x20 # replaceWhiteSpaceRuns (dropWhile isWhiteSpace cs)
      else c # replaceWhiteSpaceRuns cs)"
  by pat_completeness auto
termination
  by (relation "measure length") (auto simp: less_Suc_eq_le length_dropWhile_le)

text \<open>\<open>s.trim()\<close>\<close>

definition trim :: "string \<Rightarrow> string" where
  "trim s = rev (dropWhile isWhiteSpace (rev (dropWhile isWhiteSpace s)))"

text \<open>
  \<open>s.toLowerCase()\<close>: among the code units below 256 the upper-case letters are
  A to Z and U+00C0 to U+00DE without the multiplication sign U+00D7; each lies 32
  below its lower-case letter.
\<close>

definition toLowerCaseChar :: "char \<Rightarrow> char" where
  "toLowerCaseChar c =
     (let n = (of_char c :: nat) in
      if (65 \<le> n \<and> n \<le> 90) \<or> (192 \<le> n \<and> n \<le> 222 \<and> n \<noteq> 215)
      then char_of (n + 32) else c)"

definition toLowerCase :: "string \<Rightarrow> string" where
  "toLowerCase s = map toLowerCaseChar s"

text \<open>\<open>s.startsWith(p)\<close> and \<open>s.endsWith(p)\<close>\<close>

definition startsWith :: "string \<Rightarrow> string \<Rightarrow> bool" where
  "startsWith s p = (take (length p) s = p)"

definition endsWith :: "string \<Rightarrow> string \<Rightarrow> bool" where
  "endsWith s p = (length p \<le> length s \<and> drop (length s - length p) s = p)"

text \<open>
  \<open>s.indexOf(p)\<close>: the first position at which \<open>p\<close> occurs in \<open>s\<close>, or -1.
  The empty string occurs at position 0.
\<close>

fun indexOfFrom :: "nat \<Rightarrow> string \<Rightarrow> string \<Rightarrow> int" where
  "indexOfFrom i [] p = (if p = [] then int i else - 1)"
| "indexOfFrom i (c # cs) p =
     (if startsWith (c # cs) p then int i else indexOfFrom (Suc i) cs p)"

definition indexOf :: "string \<Rightarrow> string \<Rightarrow> int" where
  "indexOf s p = indexOfFrom 0 s p"

text \<open>
  \<open>s.substring(indexStart, indexEnd)\<close>: both arguments are clamped to
  \<open>0 .. s.length\<close>, and swapped when the first is the larger.
  \<open>s.substring(indexStart)\<close> runs to the end of the string.
\<close>

definition substring :: "string \<Rightarrow> int \<Rightarrow> int \<Rightarrow> string" where
  "substring s indexStart indexEnd =
     (let len = int (length s);
          finalStart = min (max indexStart 0) len;
          finalEnd = min (max indexEnd 0) len;
          lo = min finalStart finalEnd;
          hi = max finalStart finalEnd
      in take (nat (hi - lo)) (drop (nat lo) s))"

definition substringFrom :: "string \<Rightarrow> int \<Rightarrow> string" where
  "substringFrom s indexStart = substring s indexStart (int (length s))"

text \<open>
  \<open>a.splice(start, deleteCount)\<close> for \<open>start \<ge> 0\<close>: the elements from
  \<open>start\<close> on, at most \<open>deleteCount\<close> of them, are removed; a \<open>start\<close> at or
  beyond the length removes nothing.
\<close>

definition splice :: "nat \<Rightarrow> nat \<Rightarrow> 'a list \<Rightarrow> 'a list" where
  "splice start deleteCount a = take start a @ drop (start + deleteCount) a"

subsection \<open>cleanTranscribedText\<close>

definition punctuationChars :: "char list" where
  "punctuationChars =
     [CHR '','', CHR ''.'', CHR ''?'', CHR ''!'', CHR '';'', CHR '':'', CHR 0x22, CHR 0x27,
      CHR ''('', CHR '')'', CHR ''['', CHR '']'', CHR ''{'', CHR ''}'', CHR ''-'', CHR ''_'',
      CHR ''/'', CHR 0x5C]"

text \<open>
  The first loop, \<open>for (let i = textArray.length - 1; i >= 0; i--)\<close>, pushes the
  index of every punctuation character, the last one first. The counter of the model
  is \<open>i + 1\<close>; the loop starts at \<open>length textArray\<close> with the empty list.
\<close>

fun findPunctuationIndexes :: "string \<Rightarrow> nat \<Rightarrow> nat list \<Rightarrow> nat list" where
  "findPunctuationIndexes textArray 0 punctuationIndexes = punctuationIndexes"
| "findPunctuationIndexes textArray (Suc i) punctuationIndexes =
     findPunctuationIndexes textArray i
       (if textArray ! i \<in> set punctuationChars then punctuationIndexes @ [i]
        else punctuationIndexes)"

text \<open>
  The second loop, \<open>for (let i = punctuationIndexes.length - 1; i >= 0; i--)\<close>,
  reads the indexes from the end of \<open>punctuationIndexes\<close> and splices one element
  out of \<open>textArray\<close> at each. The counter is again \<open>i + 1\<close>, starting at
  \<open>length punctuationIndexes\<close>.
\<close>

fun removePunctuation :: "nat list \<Rightarrow> nat \<Rightarrow> string \<Rightarrow> string" where
  "removePunctuation punctuationIndexes 0 textArray = textArray"
| "removePunctuation punctuationIndexes (Suc i) textArray =
     removePunctuation punctuationIndexes i (splice (punctuationIndexes ! i) 1 textArray)"

text \<open>The body of the function for a non-empty string.\<close>

definition cleanString :: "string \<Rightarrow> string" where
  "cleanString text =
     (let textArray = text;
          punctuationIndexes = findPunctuationIndexes textArray (length textArray) [];
          textArray = removePunctuation punctuationIndexes (length punctuationIndexes) textArray
      in trim (replaceWhiteSpaceRuns textArray))"

definition cleanTranscribedText :: "js_value \<Rightarrow> string" where
  "cleanTranscribedText text =
     (if falsy text \<or> typeof text \<noteq> ''string'' then []
      else (case text of JSString s \<Rightarrow> cleanString s | _ \<Rightarrow> []))"

subsection \<open>findMatchingCommand\<close>

text \<open>
  A row of the table \<open>commands\<close>, with the columns the matcher reads.
  \<open>parameter_name\<close> is \<open>None\<close> for SQL \<open>NULL\<close>; the workflow id is passed
  through and never inspected.
\<close>

record 'w Command =
  command_name :: string
  has_parameter :: bool
  parameter_name :: "string option"
  workflow_id :: 'w

text \<open>
  The object the matcher returns: \<open>Failure message\<close> is
  \<open>{success: false, message}\<close>, and \<open>Success command parameter workflow_id message\<close>
  is \<open>{success: true, command, parameter, workflow_id, message}\<close> with
  \<open>parameter\<close> \<open>None\<close> for \<open>null\<close>.
\<close>

datatype 'w MatchResult =
    Failure string
  | Success string "string option" 'w string

fun success :: "'w MatchResult \<Rightarrow> bool" where
  "success (Failure message) = False"
| "success (Success command parameter wid message) = True"

text \<open>
  The body of the loop of step 2, over the commands without a parameter: \<open>Some\<close>
  is its \<open>return\<close>, \<open>None\<close> the fall through to the next command.
\<close>

definition exactMatch :: "string \<Rightarrow> 'w Command \<Rightarrow> 'w MatchResult option" where
  "exactMatch cleanedUserInput command =
     (if \<not> has_parameter command then
        (let cleanedSavedCommand = cleanTranscribedText (JSString (command_name command))
         in if toLowerCase cleanedUserInput = toLowerCase cleanedSavedCommand
            then Some (Success (command_name command) None (workflow_id command)
                        ''Ready to execute workflow'')
            else None)
      else None)"

fun exactMatches :: "string \<Rightarrow> 'w Command list \<Rightarrow> 'w MatchResult option" where
  "exactMatches cleanedUserInput [] = None"
| "exactMatches cleanedUserInput (command # rows) =
     (case exactMatch cleanedUserInput command of
        Some result \<Rightarrow> Some result
      | None \<Rightarrow> exactMatches cleanedUserInput rows)"

text \<open>
  Step 3 for one command with a parameter. The names below are the function's locals:
  \<open>paramIndex\<close> is where the cleaned parameter name first occurs in the cleaned
  command name, both in lower case; \<open>prefix\<close> and \<open>suffix\<close> are the cleaned
  command name before and after it, cut at \<open>paramIndex\<close> and at \<open>paramIndex\<close>
  plus the length of the cleaned parameter name.
\<close>

definition paramIndexOf :: "string \<Rightarrow> string \<Rightarrow> int" where
  "paramIndexOf savedCommand savedParam =
     (let cleanedSavedCommand = cleanTranscribedText (JSString savedCommand);
          cleanedSavedParam = cleanTranscribedText (JSString savedParam);
          savedCommandLower = toLowerCase cleanedSavedCommand;
          savedParamLower = toLowerCase cleanedSavedParam
      in indexOf savedCommandLower savedParamLower)"

definition prefixOf :: "string \<Rightarrow> string \<Rightarrow> string" where
  "prefixOf savedCommand savedParam =
     (let cleanedSavedCommand = cleanTranscribedText (JSString savedCommand);
          paramIndex = paramIndexOf savedCommand savedParam
      in substring cleanedSavedCommand 0 paramIndex)"

definition suffixOf :: "string \<Rightarrow> string \<Rightarrow> string" where
  "suffixOf savedCommand savedParam =
     (let cleanedSavedCommand = cleanTranscribedText (JSString savedCommand);
          cleanedSavedParam = cleanTranscribedText (JSString savedParam);
          paramIndex = paramIndexOf savedCommand savedParam
      in substringFrom cleanedSavedCommand (paramIndex + int (length cleanedSavedParam)))"

text \<open>
  The body of the loop of step 3: \<open>Some\<close> is its \<open>return\<close>, \<open>None\<close> the
  \<open>continue\<close> and the fall through to the next command.
  \<open>command.has_parameter && command.parameter_name\<close> is falsy for a \<open>NULL\<close> and
  for an empty parameter name.
\<close>

definition parameterizedMatch :: "string \<Rightarrow> 'w Command \<Rightarrow> 'w MatchResult option" where
  "parameterizedMatch cleanedUserInput command =
     (case parameter_name command of
        None \<Rightarrow> None
      | Some savedParam \<Rightarrow>
          if has_parameter command \<and> savedParam \<noteq> [] then
            (let savedCommand = command_name command;
                 paramIndex = paramIndexOf savedCommand savedParam
             in if paramIndex = - 1 then None
                else
                  (let prefix = prefixOf savedCommand savedParam;
                       suffix = suffixOf savedCommand savedParam;
                       inputLower = toLowerCase cleanedUserInput;
                       prefixLower = toLowerCase prefix;
                       suffixLower = toLowerCase suffix
                   in if startsWith inputLower prefixLower \<and> endsWith inputLower suffixLower
                      then
                        (let paramValue =
                               trim (substring cleanedUserInput (int (length prefix))
                                      (int (length cleanedUserInput) - int (length suffix)))
                         in Some (Success (command_name command) (Some paramValue)
                                   (workflow_id command)
                                   ''Ready to execute workflow with parameter''))
                      else None))
          else None)"

fun parameterizedMatches :: "string \<Rightarrow> 'w Command list \<Rightarrow> 'w MatchResult option" where
  "parameterizedMatches cleanedUserInput [] = None"
| "parameterizedMatches cleanedUserInput (command # rows) =
     (case parameterizedMatch cleanedUserInput command of
        Some result \<Rightarrow> Some result
      | None \<Rightarrow> parameterizedMatches cleanedUserInput rows)"

text \<open>
  The function, with \<open>rows\<close> the result of its query
  \<open>SELECT * FROM commands WHERE user_id = $1 ORDER BY has_parameter ASC, command_name ASC\<close>.
  A failure of the query is thrown on to the caller before any matching and is not
  part of the model.
\<close>

definition findMatchingCommand :: "js_value \<Rightarrow> 'w Command list \<Rightarrow> 'w MatchResult" where
  "findMatchingCommand userInput rows =
     (let cleanedUserInput = cleanTranscribedText userInput
      in if cleanedUserInput = [] then Failure ''Empty command after cleaning''
         else if length rows = 0 then Failure ''No commands found for this user''
         else
           (case exactMatches cleanedUserInput rows of
              Some result \<Rightarrow> result
            | None \<Rightarrow>
                (case parameterizedMatches cleanedUserInput rows of
                   Some result \<Rightarrow> result
                 | None \<Rightarrow> Failure ''No matching command found'')))"

section \<open>The text cleaner\<close>

subsection \<open>Values that are not strings\<close>

lemma typeof_string_iff: "typeof v = ''string'' \<longleftrightarrow> (\<exists>s. v = JSString s)"
  by (cases v) simp_all

text \<open>
  C9. \<open>cleanTranscribedText\<close> applied to \<open>null\<close>, or to any other value that is
  not a string, returns the empty string; no error value exists on this path.
\<close>

theorem cleanTranscribedText_non_string:
  assumes "\<forall>s. text \<noteq> JSString s"
  shows "cleanTranscribedText text = []"
proof -
  from assms have "typeof text \<noteq> ''string''"
    by (simp add: typeof_string_iff)
  then show ?thesis
    by (simp add: cleanTranscribedText_def)
qed

theorem cleanTranscribedText_null:
  "(\<forall>s. JSNull \<noteq> JSString s) \<and> cleanTranscribedText JSNull = []"
proof -
  have h: "\<forall>s. JSNull \<noteq> JSString s" by simp
  from h cleanTranscribedText_non_string [OF h] show ?thesis by simp
qed

subsection \<open>White space in the cleaned text\<close>

lemma replaceWhiteSpaceRuns_head:
  "xs \<noteq> [] \<Longrightarrow> \<not> isWhiteSpace (hd xs) \<Longrightarrow>
     replaceWhiteSpaceRuns xs \<noteq> [] \<and> hd (replaceWhiteSpaceRuns xs) = hd xs"
  by (cases xs) simp_all

lemma dropWhile_head: "dropWhile P xs \<noteq> [] \<Longrightarrow> \<not> P (hd (dropWhile P xs))"
  using hd_dropWhile by blast

lemma replaceWhiteSpaceRuns_single:
  "successively (\<lambda>a b. \<not> (isWhiteSpace a \<and> isWhiteSpace b)) (replaceWhiteSpaceRuns xs)"
proof (induction xs rule: replaceWhiteSpaceRuns.induct)
  case 1
  then show ?case by simp
next
  case (2 c cs)
  show ?case
  proof (cases "isWhiteSpace c")
    case True
    let ?d = "dropWhile isWhiteSpace cs"
    from True 2 have ih: "successively (\<lambda>a b. \<not> (isWhiteSpace a \<and> isWhiteSpace b))
        (replaceWhiteSpaceRuns ?d)"
      by simp
    have "replaceWhiteSpaceRuns ?d = [] \<or> \<not> isWhiteSpace (hd (replaceWhiteSpaceRuns ?d))"
    proof (cases "?d = []")
      case True
      then have "replaceWhiteSpaceRuns ?d = []"
        by (simp only: replaceWhiteSpaceRuns.simps)
      then show ?thesis
        by (rule disjI1)
    next
      case False
      then have "\<not> isWhiteSpace (hd ?d)"
        by (rule dropWhile_head)
      with False show ?thesis
        using replaceWhiteSpaceRuns_head [of ?d] by simp
    qed
    with True ih show ?thesis
      by (auto simp: successively_Cons)
  next
    case False
    with 2 show ?thesis
      by (simp add: successively_Cons)
  qed
qed

lemma replaceWhiteSpaceRuns_spaces:
  "c \<in> set (replaceWhiteSpaceRuns xs) \<Longrightarrow> isWhiteSpace c \<Longrightarrow> c = CHR 0x20"
proof (induction xs rule: replaceWhiteSpaceRuns.induct)
  case 1
  then show ?case by simp
next
  case (2 d ds)
  then show ?case
    by (cases "isWhiteSpace d") auto
qed

lemma replaceWhiteSpaceRuns_fixed:
  "successively (\<lambda>a b. \<not> (isWhiteSpace a \<and> isWhiteSpace b)) r \<Longrightarrow>
   (\<forall>c\<in>set r. isWhiteSpace c \<longrightarrow> c = CHR 0x20) \<Longrightarrow> replaceWhiteSpaceRuns r = r"
proof (induction r)
  case Nil
  then show ?case by simp
next
  case (Cons c cs)
  from Cons.prems have tl: "successively (\<lambda>a b. \<not> (isWhiteSpace a \<and> isWhiteSpace b)) cs"
    and sp: "\<forall>c\<in>set cs. isWhiteSpace c \<longrightarrow> c = CHR 0x20"
    by (auto simp: successively_Cons)
  from Cons.IH [OF tl sp] have ih: "replaceWhiteSpaceRuns cs = cs" .
  show ?case
  proof (cases "isWhiteSpace c")
    case True
    with Cons.prems have c: "c = CHR 0x20"
      by simp
    from True Cons.prems have "cs = [] \<or> \<not> isWhiteSpace (hd cs)"
      by (auto simp: successively_Cons)
    then have "dropWhile isWhiteSpace cs = cs"
      by (cases cs) auto
    with True c ih show ?thesis
      by simp
  next
    case False
    with ih show ?thesis
      by simp
  qed
qed

lemma successively_dropWhile:
  "successively P xs \<Longrightarrow> successively P (dropWhile Q xs)"
  using successively_append_iff [of P "takeWhile Q xs" "dropWhile Q xs"] by simp

lemma trim_single:
  assumes "successively (\<lambda>a b. \<not> (isWhiteSpace a \<and> isWhiteSpace b)) s"
  shows "successively (\<lambda>a b. \<not> (isWhiteSpace a \<and> isWhiteSpace b)) (trim s)"
proof -
  let ?P = "\<lambda>a b. \<not> (isWhiteSpace a \<and> isWhiteSpace b)"
  let ?d = "dropWhile isWhiteSpace s"
  from assms have "successively ?P ?d"
    by (rule successively_dropWhile)
  then have "successively (\<lambda>a b. ?P b a) ?d"
    by (simp add: conj_commute)
  then have "successively ?P (rev ?d)"
    by (simp only: successively_rev)
  then have "successively ?P (dropWhile isWhiteSpace (rev ?d))"
    by (rule successively_dropWhile)
  then have "successively (\<lambda>a b. ?P b a) (dropWhile isWhiteSpace (rev ?d))"
    by (simp add: conj_commute)
  then show ?thesis
    unfolding trim_def by (simp only: successively_rev)
qed

lemma set_trim: "c \<in> set (trim s) \<Longrightarrow> c \<in> set s"
  unfolding trim_def by (auto dest!: set_dropWhileD)

lemma trim_trim: "trim (trim s) = trim s"
proof -
  let ?d = "dropWhile isWhiteSpace s"
  let ?t = "trim s"
  have rt: "rev ?t = dropWhile isWhiteSpace (rev ?d)"
    by (simp add: trim_def)
  have front: "dropWhile isWhiteSpace ?t = ?t"
  proof (cases "?t = []")
    case True
    then show ?thesis by simp
  next
    case False
    have "?d = ?t @ rev (takeWhile isWhiteSpace (rev ?d))"
    proof -
      have "rev ?d = takeWhile isWhiteSpace (rev ?d) @ rev ?t"
        unfolding rt by simp
      then have "rev (rev ?d) = rev (takeWhile isWhiteSpace (rev ?d) @ rev ?t)"
        by (rule arg_cong)
      then show ?thesis
        by simp
    qed
    with False have "hd ?d = hd ?t" and "?d \<noteq> []"
      by (metis hd_append2, metis append_is_Nil_conv)
    then have "\<not> isWhiteSpace (hd ?t)"
      using dropWhile_head [of isWhiteSpace s] by simp
    with False show ?thesis
      by (cases ?t) simp_all
  qed
  have "dropWhile isWhiteSpace (rev ?t) = rev ?t"
    unfolding rt by (rule dropWhile_idem)
  with front show ?thesis
    unfolding trim_def [of "trim s"] by simp
qed


lemma cleanString_white_space:
  "successively (\<lambda>a b. \<not> (isWhiteSpace a \<and> isWhiteSpace b)) (cleanString s)
   \<and> replaceWhiteSpaceRuns (cleanString s) = cleanString s
   \<and> trim (cleanString s) = cleanString s"
proof -
  let ?P = "\<lambda>a b. \<not> (isWhiteSpace a \<and> isWhiteSpace b)"
  obtain t where t: "cleanString s = trim (replaceWhiteSpaceRuns t)"
    by (simp add: cleanString_def Let_def)
  have single: "successively ?P (cleanString s)"
    unfolding t by (rule trim_single) (rule replaceWhiteSpaceRuns_single)
  have "\<forall>c\<in>set (cleanString s). isWhiteSpace c \<longrightarrow> c = CHR 0x20"
    unfolding t by (blast dest: set_trim replaceWhiteSpaceRuns_spaces)
  with single have "replaceWhiteSpaceRuns (cleanString s) = cleanString s"
    by (rule replaceWhiteSpaceRuns_fixed)
  moreover have "trim (cleanString s) = cleanString s"
    unfolding t by (rule trim_trim)
  ultimately show ?thesis
    using single by simp
qed

text \<open>
  Whatever the removal of punctuation leaves, the last two steps settle the white
  space: in the cleaned text no two white-space characters stand side by side, and
  replacing the runs of white space and trimming change nothing any more (so every
  white-space character left is a single space inside the text).
\<close>

theorem cleaned_text_white_space:
  "successively (\<lambda>a b. \<not> (isWhiteSpace a \<and> isWhiteSpace b)) (cleanTranscribedText text)
   \<and> replaceWhiteSpaceRuns (cleanTranscribedText text) = cleanTranscribedText text
   \<and> trim (cleanTranscribedText text) = cleanTranscribedText text"
proof (cases "\<exists>s. text = JSString s \<and> s \<noteq> []")
  case True
  then obtain s where "text = JSString s" "s \<noteq> []"
    by blast
  then have "cleanTranscribedText text = cleanString s"
    by (simp add: cleanTranscribedText_def)
  then show ?thesis
    using cleanString_white_space [of s] by simp
next
  case False
  then have "cleanTranscribedText text = []"
    by (cases "text") (auto simp: cleanTranscribedText_def)
  then show ?thesis
    by (simp add: trim_def)
qed

subsection \<open>The order of the removals\<close>

lemma findPunctuationIndexes_eq:
  "findPunctuationIndexes t n acc
     = acc @ rev (filter (\<lambda>i. t ! i \<in> set punctuationChars) [0..<n])"
  by (induction n arbitrary: acc) simp_all

lemma removePunctuation_eq:
  "n \<le> length pis \<Longrightarrow>
     removePunctuation pis n ta = fold (\<lambda>i. splice i 1) (rev (take n pis)) ta"
proof (induction n arbitrary: ta)
  case 0
  then show ?case by simp
next
  case (Suc n)
  then have "take (Suc n) pis = take n pis @ [pis ! n]"
    by (simp add: take_Suc_conv_app_nth)
  with Suc show ?case
    by simp
qed

lemma cleanTranscribedText_splices:
  "cleanTranscribedText (JSString t)
     = trim (replaceWhiteSpaceRuns
         (fold (\<lambda>i. splice i 1) (filter (\<lambda>i. t ! i \<in> set punctuationChars) [0..<length t]) t))"
proof (cases "t = []")
  case True
  then show ?thesis
    by (simp add: cleanTranscribedText_def trim_def)
next
  case False
  let ?asc = "filter (\<lambda>i. t ! i \<in> set punctuationChars) [0..<length t]"
  have "findPunctuationIndexes t (length t) [] = rev ?asc"
    by (simp add: findPunctuationIndexes_eq)
  moreover have "removePunctuation (rev ?asc) (length (rev ?asc)) t
      = fold (\<lambda>i. splice i 1) (rev (take (length (rev ?asc)) (rev ?asc))) t"
    by (rule removePunctuation_eq) simp
  then have "removePunctuation (rev ?asc) (length (rev ?asc)) t = fold (\<lambda>i. splice i 1) ?asc t"
    by simp
  ultimately have "cleanString t = trim (replaceWhiteSpaceRuns (fold (\<lambda>i. splice i 1) ?asc t))"
    by (simp add: cleanString_def Let_def)
  with False show ?thesis
    by (simp add: cleanTranscribedText_def)
qed

lemma filter_indexes_none:
  "\<forall>x\<in>set xs. \<not> Q x \<Longrightarrow> filter (\<lambda>i. Q (xs ! i)) [0..<length xs] = []"
  by (simp add: filter_empty_conv)

text \<open>
  The two loops together: the positions at which the text holds a punctuation character
  are spliced out one by one in ascending order, each splice acting on the text the
  splices before it have left.
\<close>

theorem punctuation_spliced_in_ascending_order:
  "cleanTranscribedText (JSString t)
     = trim (replaceWhiteSpaceRuns
         (fold (\<lambda>i. splice i 1) (filter (\<lambda>i. t ! i \<in> set punctuationChars) [0..<length t]) t))"
  by (rule cleanTranscribedText_splices)

lemma upt_append_shift: "[0..<m + k] = [0..<m] @ map (\<lambda>j. m + j) [0..<k]"
proof -
  have "map (\<lambda>j. m + j) [0..<k] = map (\<lambda>j. j + m) [0..<k]"
    by (rule map_cong) simp_all
  also have "\<dots> = [m..<k + m]"
    by (simp only: map_add_upt)
  finally have "map (\<lambda>j. m + j) [0..<k] = [m..<m + k]"
    by (simp only: add.commute)
  moreover have "[0..<m + k] = [0..<m] @ [m..<m + k]"
    by (rule upt_add_eq_append) simp
  ultimately show ?thesis
    by (rule ssubst)
qed

lemma filter_indexes_append:
  "filter (\<lambda>i. Q ((u @ w) ! i)) [0..<length (u @ w)]
     = filter (\<lambda>i. Q (u ! i)) [0..<length u]
       @ map (\<lambda>j. length u + j) (filter (\<lambda>j. Q (w ! j)) [0..<length w])"
proof -
  have "[0..<length (u @ w)] = [0..<length u] @ map (\<lambda>j. length u + j) [0..<length w]"
    unfolding length_append by (rule upt_append_shift)
  moreover have "filter (\<lambda>i. Q ((u @ w) ! i)) [0..<length u] = filter (\<lambda>i. Q (u ! i)) [0..<length u]"
    by (rule filter_cong) (simp_all add: nth_append)
  moreover have "filter (\<lambda>i. Q ((u @ w) ! i)) (map (\<lambda>j. length u + j) [0..<length w])
      = map (\<lambda>j. length u + j) (filter (\<lambda>j. Q (w ! j)) [0..<length w])"
    by (simp add: filter_map comp_def)
  ultimately show ?thesis
    by (simp only: filter_append)
qed

lemma filter_indexes_Cons:
  "filter (\<lambda>i. Q ((c # v) ! i)) [0..<length (c # v)]
     = (if Q c then [0] else []) @ map Suc (filter (\<lambda>j. Q (v ! j)) [0..<length v])"
proof -
  have "[0..<length (c # v)] = 0 # map Suc [0..<length v]"
    unfolding list.size(4) map_Suc_upt by (simp add: upt_conv_Cons del: upt_Suc)
  moreover have "filter (\<lambda>i. Q ((c # v) ! i)) (0 # map Suc [0..<length v])
     = (if Q c then [0] else []) @ map Suc (filter (\<lambda>j. Q (v ! j)) [0..<length v])"
    by (simp add: filter_map comp_def)
  ultimately show ?thesis
    by (simp only:)
qed

text \<open>
  A text with no punctuation character, or with a single one, is cleaned as the loops'
  comments say: the character is removed, and the white space is settled.
\<close>

theorem one_punctuation_character_removed:
  assumes u: "\<forall>x\<in>set u. x \<notin> set punctuationChars"
    and v: "\<forall>x\<in>set v. x \<notin> set punctuationChars"
    and c: "c \<in> set punctuationChars"
  shows "cleanTranscribedText (JSString (u @ v)) = trim (replaceWhiteSpaceRuns (u @ v))
     \<and> cleanTranscribedText (JSString (u @ c # v)) = trim (replaceWhiteSpaceRuns (u @ v))"
proof -
  let ?Q = "\<lambda>x. x \<in> set punctuationChars"
  from u v have "\<forall>x\<in>set (u @ v). \<not> ?Q x"
    by auto
  then have "filter (\<lambda>i. ?Q ((u @ v) ! i)) [0..<length (u @ v)] = []"
    by (rule filter_indexes_none)
  then have none: "cleanTranscribedText (JSString (u @ v)) = trim (replaceWhiteSpaceRuns (u @ v))"
    by (simp only: cleanTranscribedText_splices fold_simps)
  from u have fu: "filter (\<lambda>i. ?Q (u ! i)) [0..<length u] = []"
    by (intro filter_indexes_none) simp
  from v have fv: "filter (\<lambda>i. ?Q (v ! i)) [0..<length v] = []"
    by (intro filter_indexes_none) simp
  have "filter (\<lambda>i. ?Q ((u @ c # v) ! i)) [0..<length (u @ c # v)]
      = filter (\<lambda>i. ?Q (u ! i)) [0..<length u]
        @ map (\<lambda>j. length u + j) (filter (\<lambda>j. ?Q ((c # v) ! j)) [0..<length (c # v)])"
    by (rule filter_indexes_append)
  also have "filter (\<lambda>j. ?Q ((c # v) ! j)) [0..<length (c # v)]
      = (if ?Q c then [0] else []) @ map Suc (filter (\<lambda>j. ?Q (v ! j)) [0..<length v])"
    by (rule filter_indexes_Cons)
  finally have "filter (\<lambda>i. ?Q ((u @ c # v) ! i)) [0..<length (u @ c # v)] = [length u]"
    unfolding fu fv using c by simp
  moreover have "splice (length u) 1 (u @ c # v) = u @ v"
    by (simp add: splice_def)
  ultimately have "cleanTranscribedText (JSString (u @ c # v)) = trim (replaceWhiteSpaceRuns (u @ v))"
    by (simp only: cleanTranscribedText_splices fold_simps id_apply comp_apply)
  with none show ?thesis
    by (rule conjI)
qed

text \<open>The single comma of \<open>Hello, World\<close> is removed.\<close>

theorem hello_comma_world:
  "cleanTranscribedText (JSString ''Hello, World'') = ''Hello World''"
proof -
  have u: "\<forall>x\<in>set ''Hello''. x \<notin> set punctuationChars"
    by (simp add: punctuationChars_def)
  have v: "\<forall>x\<in>set '' World''. x \<notin> set punctuationChars"
    by (simp add: punctuationChars_def)
  have c: "CHR '','' \<in> set punctuationChars"
    by (simp add: punctuationChars_def)
  from one_punctuation_character_removed [OF u v c, THEN conjunct2]
  have "cleanTranscribedText (JSString (''Hello'' @ CHR '','' # '' World''))
      = trim (replaceWhiteSpaceRuns (''Hello'' @ '' World''))" .
  moreover have "trim (replaceWhiteSpaceRuns (''Hello'' @ '' World'')) = ''Hello World''"
    by code_simp
  ultimately show ?thesis
    by simp
qed

subsection \<open>Two or more punctuation characters\<close>

text \<open>
  The first loop collects the indexes in descending order and the second loop reads
  that list from its end, so the characters are spliced out in ascending order of
  index. Each removal moves the rest of the text one place to the left, and every index
  after the first then points one place further to the right than the character it was
  collected for.
\<close>

lemma punctuationIndexes_hello: "findPunctuationIndexes ''Hello, world.'' 13 [] = [12, 5]"
  by code_simp

lemma removePunctuation_hello: "removePunctuation [12, 5] 2 ''Hello, world.'' = ''Hello world.''"
  by code_simp

text \<open>
  C1. The cleaned text is to hold no punctuation character; it does not. In
  \<open>Hello, world.\<close> the comma goes, and the full stop, collected at index 12, is
  looked for at index 12 of a text that is by then 12 characters long: it stays.
\<close>

theorem cleanTranscribedText_keeps_full_stop:
  "cleanTranscribedText (JSString ''Hello, world.'') = ''Hello world.''
   \<and> CHR ''.'' \<in> set punctuationChars
   \<and> CHR ''.'' \<in> set (cleanTranscribedText (JSString ''Hello, world.''))"
  by code_simp

text \<open>
  C2. Cleaning is to be idempotent; it is not. The full stop left over by the first pass
  is the only punctuation character of the second pass, which removes it.
\<close>

theorem cleanTranscribedText_twice_differs:
  "cleanTranscribedText (JSString ''Hello, world.'') = ''Hello world.''
   \<and> cleanTranscribedText (JSString (cleanTranscribedText (JSString ''Hello, world.'')))
       = ''Hello world''"
  by code_simp

section \<open>The command matcher\<close>

subsection \<open>Searching a string\<close>

text \<open>\<open>indexOf\<close> answers -1 exactly when the string searched for occurs nowhere.\<close>

lemma startsWith_iff: "startsWith s p \<longleftrightarrow> (\<exists>v. s = p @ v)"
  unfolding startsWith_def
proof
  assume "take (length p) s = p"
  then have "s = p @ drop (length p) s"
    by (metis append_take_drop_id)
  then show "\<exists>v. s = p @ v" ..
next
  assume "\<exists>v. s = p @ v"
  then show "take (length p) s = p" by auto
qed

lemma indexOfFrom_absent:
  "indexOfFrom i s p = - 1 \<longleftrightarrow> \<not> (\<exists>u v. s = u @ p @ v)"
proof (induction s arbitrary: i)
  case Nil
  then show ?case by auto
next
  case (Cons c cs)
  show ?case
  proof (cases "startsWith (c # cs) p")
    case True
    then obtain v where "c # cs = p @ v"
      by (auto simp: startsWith_iff)
    then have "c # cs = [] @ p @ v" by simp
    then have "\<exists>u v. c # cs = u @ p @ v" by blast
    with True show ?thesis by simp
  next
    case False
    have "(\<exists>u v. c # cs = u @ p @ v) \<longleftrightarrow> (\<exists>u v. cs = u @ p @ v)"
    proof
      assume "\<exists>u v. c # cs = u @ p @ v"
      then obtain u v where uv: "c # cs = u @ p @ v" by blast
      show "\<exists>u v. cs = u @ p @ v"
      proof (cases u)
        case Nil
        with uv have "startsWith (c # cs) p"
          by (auto simp: startsWith_iff)
        with False show ?thesis by simp
      next
        case (Cons a u')
        with uv have "cs = u' @ p @ v" by simp
        then show ?thesis by blast
      qed
    next
      assume "\<exists>u v. cs = u @ p @ v"
      then obtain u v where "cs = u @ p @ v" by blast
      then have "c # cs = (c # u) @ p @ v" by simp
      then show "\<exists>u v. c # cs = u @ p @ v" by blast
    qed
    with False Cons.IH [of "Suc i"] show ?thesis by simp
  qed
qed

lemma indexOf_absent: "indexOf s p = - 1 \<longleftrightarrow> \<not> (\<exists>u v. s = u @ p @ v)"
  by (simp add: indexOf_def indexOfFrom_absent)

subsection \<open>The two loops\<close>

text \<open>
  Each loop returns the result of the first command its body returns on, and passes
  over every command its body falls through on.
\<close>

lemma exactMatch_Some_iff:
  "exactMatch ci c = Some r \<longleftrightarrow>
     \<not> has_parameter c
     \<and> toLowerCase ci = toLowerCase (cleanTranscribedText (JSString (command_name c)))
     \<and> r = Success (command_name c) None (workflow_id c) ''Ready to execute workflow''"
  by (auto simp: exactMatch_def Let_def)

lemma exactMatch_parameterized: "has_parameter c \<Longrightarrow> exactMatch ci c = None"
  by (simp add: exactMatch_def)

lemma parameterizedMatch_plain: "\<not> has_parameter c \<Longrightarrow> parameterizedMatch ci c = None"
  by (simp add: parameterizedMatch_def split: option.splits)

lemma exactMatches_skip:
  "\<forall>x\<in>set pre. exactMatch ci x = None \<Longrightarrow> exactMatches ci (pre @ rows) = exactMatches ci rows"
  by (induction pre) simp_all

lemma exactMatches_split:
  "exactMatches ci rows = Some r \<Longrightarrow>
     \<exists>pre c post. rows = pre @ c # post \<and> (\<forall>x\<in>set pre. exactMatch ci x = None)
       \<and> exactMatch ci c = Some r"
proof (induction rows)
  case Nil
  then show ?case by simp
next
  case (Cons a rows)
  show ?case
  proof (cases "exactMatch ci a")
    case None
    with Cons.prems have "exactMatches ci rows = Some r" by simp
    from Cons.IH [OF this] obtain pre c post where
      "rows = pre @ c # post" "\<forall>x\<in>set pre. exactMatch ci x = None" "exactMatch ci c = Some r"
      by blast
    with None have "a # rows = (a # pre) @ c # post \<and> (\<forall>x\<in>set (a # pre). exactMatch ci x = None)
        \<and> exactMatch ci c = Some r"
      by simp
    then show ?thesis by blast
  next
    case (Some r')
    with Cons.prems have "r' = r" by simp
    with Some have "a # rows = [] @ a # rows \<and> (\<forall>x\<in>set []. exactMatch ci x = None)
        \<and> exactMatch ci a = Some r"
      by simp
    then show ?thesis by blast
  qed
qed

lemma exactMatches_None_iff:
  "exactMatches ci rows = None \<longleftrightarrow> (\<forall>c\<in>set rows. exactMatch ci c = None)"
  by (induction rows) (auto split: option.splits)

lemma parameterizedMatches_skip:
  "\<forall>x\<in>set pre. parameterizedMatch ci x = None \<Longrightarrow>
     parameterizedMatches ci (pre @ rows) = parameterizedMatches ci rows"
  by (induction pre) simp_all

lemma parameterizedMatches_Some:
  "parameterizedMatches ci rows = Some r \<Longrightarrow> \<exists>c\<in>set rows. parameterizedMatch ci c = Some r"
  by (induction rows) (auto split: option.splits)

lemma parameterizedMatches_drop:
  "parameterizedMatch ci c = None \<Longrightarrow>
     parameterizedMatches ci (pre @ c # post) = parameterizedMatches ci (pre @ post)"
  by (induction pre) (simp_all split: option.splits)

lemma exactMatches_drop:
  "exactMatch ci c = None \<Longrightarrow> exactMatches ci (pre @ c # post) = exactMatches ci (pre @ post)"
  by (induction pre) (simp_all split: option.splits)

lemma exactMatches_filter:
  "exactMatches ci (filter (\<lambda>c. \<not> has_parameter c) rows) = exactMatches ci rows"
  by (induction rows) (simp_all add: exactMatch_parameterized split: option.splits)

lemma parameterizedMatch_Some:
  "parameterizedMatch ci c = Some r \<Longrightarrow>
     \<exists>savedParam. has_parameter c \<and> parameter_name c = Some savedParam \<and> savedParam \<noteq> []
       \<and> paramIndexOf (command_name c) savedParam \<noteq> - 1
       \<and> startsWith (toLowerCase ci) (toLowerCase (prefixOf (command_name c) savedParam))
       \<and> endsWith (toLowerCase ci) (toLowerCase (suffixOf (command_name c) savedParam))
       \<and> r = Success (command_name c)
             (Some (trim (substring ci (int (length (prefixOf (command_name c) savedParam)))
                (int (length ci) - int (length (suffixOf (command_name c) savedParam))))))
             (workflow_id c) ''Ready to execute workflow with parameter''"
  by (auto simp: parameterizedMatch_def Let_def split: option.splits if_splits)

text \<open>Whatever a loop returns is a success.\<close>

lemma exactMatch_success: "exactMatch ci c = Some r \<Longrightarrow> success r"
  by (auto simp: exactMatch_Some_iff)

lemma parameterizedMatch_success: "parameterizedMatch ci c = Some r \<Longrightarrow> success r"
  by (auto dest: parameterizedMatch_Some)

lemma exactMatches_success: "exactMatches ci rows = Some r \<Longrightarrow> success r"
  by (auto dest!: exactMatches_split exactMatch_success)

lemma parameterizedMatches_success: "parameterizedMatches ci rows = Some r \<Longrightarrow> success r"
  by (auto dest!: parameterizedMatches_Some parameterizedMatch_success)

subsection \<open>The function as a whole\<close>

lemma findMatchingCommand_nonempty:
  "cleanTranscribedText userInput \<noteq> [] \<Longrightarrow> rows \<noteq> [] \<Longrightarrow>
   findMatchingCommand userInput rows =
     (case exactMatches (cleanTranscribedText userInput) rows of
        Some result \<Rightarrow> result
      | None \<Rightarrow>
          (case parameterizedMatches (cleanTranscribedText userInput) rows of
             Some result \<Rightarrow> result
           | None \<Rightarrow> Failure ''No matching command found''))"
  by (simp add: findMatchingCommand_def Let_def)

lemma findMatchingCommand_success:
  "success (findMatchingCommand userInput rows) \<Longrightarrow>
     cleanTranscribedText userInput \<noteq> [] \<and> rows \<noteq> []"
  by (auto simp: findMatchingCommand_def Let_def split: if_splits)

subsection \<open>Input made of punctuation only\<close>

lemma clean_three_full_stops: "cleanTranscribedText (JSString ''...'') = ''.''"
  by code_simp

text \<open>
  C3. An input made of punctuation characters only is to end in the failure
  \<open>Empty command after cleaning\<close>, whatever the commands; it does not. Of the three full stops
  of \<open>...\<close> the cleaner removes two (the indexes 0, 1 and 2 are spliced in this
  order, and the third lies beyond the end by then), the cleaned input is \<open>.\<close>, and
  the function goes on to the commands: for no list of commands is the result that
  failure, and for the empty list it is \<open>No commands found for this user\<close>.
\<close>

theorem three_full_stops_not_empty:
  "cleanTranscribedText (JSString ''...'') = ''.''
   \<and> findMatchingCommand (JSString ''...'') rows \<noteq> Failure ''Empty command after cleaning''
   \<and> findMatchingCommand (JSString ''...'') [] = Failure ''No commands found for this user''"
proof -
  have "findMatchingCommand (JSString ''...'') rows \<noteq> Failure ''Empty command after cleaning''"
  proof (cases "rows = []")
    case True
    then show ?thesis
      by (simp add: findMatchingCommand_def clean_three_full_stops)
  next
    case False
    show ?thesis
    proof
      assume a: "findMatchingCommand (JSString ''...'') rows = Failure ''Empty command after cleaning''"
      then have "\<not> success (findMatchingCommand (JSString ''...'') rows)" by simp
      with False show False using a
        by (auto simp: findMatchingCommand_nonempty clean_three_full_stops
            split: option.splits dest: exactMatches_success parameterizedMatches_success)
    qed
  qed
  then show ?thesis
    by (simp add: findMatchingCommand_def clean_three_full_stops)
qed

subsection \<open>Prefix and suffix longer than the input\<close>

lemma length_toLowerCase: "length (toLowerCase s) = length s"
  by (simp add: toLowerCase_def)

lemma toLowerCase_take: "toLowerCase (take n s) = take n (toLowerCase s)"
  by (simp add: toLowerCase_def take_map)

lemma toLowerCase_drop: "toLowerCase (drop n s) = drop n (toLowerCase s)"
  by (simp add: toLowerCase_def drop_map)

lemma startsWith_length: "startsWith s p \<Longrightarrow> length p \<le> length s"
  by (auto simp: startsWith_iff)

lemma substring_in_order:
  "a \<le> b \<Longrightarrow> b \<le> length s \<Longrightarrow> substring s (int a) (int b) = take (b - a) (drop a s)"
  unfolding substring_def Let_def by (simp add: nat_diff_distrib')

lemma substring_swapped:
  "b \<le> a \<Longrightarrow> a \<le> length s \<Longrightarrow> substring s (int a) (int b) = take (a - b) (drop b s)"
  unfolding substring_def Let_def by (simp add: nat_diff_distrib')

lemma parameterizedMatch_eq:
  assumes "has_parameter c" "parameter_name c = Some savedParam" "savedParam \<noteq> []"
    "paramIndexOf (command_name c) savedParam \<noteq> - 1"
  shows "parameterizedMatch ci c =
     (if startsWith (toLowerCase ci) (toLowerCase (prefixOf (command_name c) savedParam))
         \<and> endsWith (toLowerCase ci) (toLowerCase (suffixOf (command_name c) savedParam))
      then Some (Success (command_name c)
             (Some (trim (substring ci (int (length (prefixOf (command_name c) savedParam)))
                (int (length ci) - int (length (suffixOf (command_name c) savedParam))))))
             (workflow_id c) ''Ready to execute workflow with parameter'')
      else None)"
  unfolding parameterizedMatch_def Let_def using assms by simp

text \<open>
  The command \<open>Search Example On Youtube\<close> with the parameter \<open>Example\<close> has
  the prefix \<open>Search\<close> with a space after it (7 characters) and the suffix
  \<open>On Youtube\<close> with a space before it (11 characters). The input
  \<open>Search On Youtube\<close> (17 characters) starts with the one and ends with the other:
  they share its first space. No test compares the lengths, \<open>substring(7, 6)\<close>
  swaps its arguments and yields that space, and the command matches with the empty
  parameter. As C4 is stated, the command would have been passed over.
\<close>

theorem overlap_search_on_youtube:
  "prefixOf ''Search Example On Youtube'' ''Example'' = ''Search ''
   \<and> suffixOf ''Search Example On Youtube'' ''Example'' = '' On Youtube''
   \<and> cleanTranscribedText (JSString ''Search On Youtube'') = ''Search On Youtube''
   \<and> length ''Search On Youtube'' < length ''Search '' + length '' On Youtube''
   \<and> findMatchingCommand (JSString ''Search On Youtube'')
         [\<lparr>command_name = ''Search Example On Youtube'', has_parameter = True,
           parameter_name = Some ''Example'', workflow_id = (1::nat)\<rparr>]
       = Success ''Search Example On Youtube'' (Some []) 1
           ''Ready to execute workflow with parameter''"
  by code_simp

text \<open>
  C4, as the code has it. A command with a parameter whose parameter name occurs in
  its name is passed over exactly when the input, in lower case, does not start with
  the prefix or does not end with the suffix. The lengths are not compared: when both
  tests hold although prefix and suffix together are longer than the input, the command
  matches, and the parameter is the trimmed text of the input from position
  (input length - suffix length) up to position (prefix length), the part of the input
  that prefix and suffix share.
\<close>

theorem overlap_is_not_checked:
  assumes "has_parameter command" and "parameter_name command = Some savedParam"
    and "savedParam \<noteq> []" and "paramIndexOf (command_name command) savedParam \<noteq> - 1"
  shows
    "(parameterizedMatch cleanedUserInput command = None \<longleftrightarrow>
        \<not> (startsWith (toLowerCase cleanedUserInput)
              (toLowerCase (prefixOf (command_name command) savedParam))
           \<and> endsWith (toLowerCase cleanedUserInput)
              (toLowerCase (suffixOf (command_name command) savedParam))))
     \<and> (startsWith (toLowerCase cleanedUserInput)
              (toLowerCase (prefixOf (command_name command) savedParam))
         \<and> endsWith (toLowerCase cleanedUserInput)
              (toLowerCase (suffixOf (command_name command) savedParam))
         \<and> length cleanedUserInput
             < length (prefixOf (command_name command) savedParam)
               + length (suffixOf (command_name command) savedParam)
        \<longrightarrow> parameterizedMatch cleanedUserInput command =
              Some (Success (command_name command)
                (Some (trim (take (length (prefixOf (command_name command) savedParam)
                                   + length (suffixOf (command_name command) savedParam)
                                   - length cleanedUserInput)
                              (drop (length cleanedUserInput
                                      - length (suffixOf (command_name command) savedParam))
                                 cleanedUserInput))))
                (workflow_id command) ''Ready to execute workflow with parameter''))"
proof -
  let ?p = "prefixOf (command_name command) savedParam"
  let ?s = "suffixOf (command_name command) savedParam"
  let ?ci = cleanedUserInput
  note eq = parameterizedMatch_eq [OF assms, of ?ci]
  have iff: "parameterizedMatch ?ci command = None \<longleftrightarrow>
      \<not> (startsWith (toLowerCase ?ci) (toLowerCase ?p) \<and> endsWith (toLowerCase ?ci) (toLowerCase ?s))"
    by (simp add: eq)
  have ov: "parameterizedMatch ?ci command =
      Some (Success (command_name command)
        (Some (trim (take (length ?p + length ?s - length ?ci) (drop (length ?ci - length ?s) ?ci))))
        (workflow_id command) ''Ready to execute workflow with parameter'')"
    if sw: "startsWith (toLowerCase ?ci) (toLowerCase ?p)"
      and ew: "endsWith (toLowerCase ?ci) (toLowerCase ?s)"
      and lt: "length ?ci < length ?p + length ?s"
  proof -
    from sw have lp: "length ?p \<le> length ?ci"
      using startsWith_length [of "toLowerCase ?ci" "toLowerCase ?p"]
      by (simp add: length_toLowerCase)
    from ew have ls: "length ?s \<le> length ?ci"
      by (simp add: endsWith_def length_toLowerCase)
    from ls have e1: "int (length ?ci) - int (length ?s) = int (length ?ci - length ?s)"
      by simp
    from lt have le: "length ?ci - length ?s \<le> length ?p"
      by arith
    from ls have e2: "length ?p - (length ?ci - length ?s) = length ?p + length ?s - length ?ci"
      by arith
    have "substring ?ci (int (length ?p)) (int (length ?ci) - int (length ?s))
        = take (length ?p + length ?s - length ?ci) (drop (length ?ci - length ?s) ?ci)"
      unfolding e1 e2 [symmetric] using le lp by (rule substring_swapped)
    with sw ew show ?thesis
      unfolding eq by simp
  qed
  show ?thesis
    by (rule conjI [OF iff], rule impI, elim conjE, rule ov; assumption)
qed

text \<open>
  At the command \<open>Call me Example me now\<close> and the input \<open>call me now\<close> prefix
  (8 characters) and suffix (7) share the word \<open>me\<close> of the input (11), and
  \<open>me\<close> is the parameter returned.
\<close>

theorem overlap_call_me_now:
  "prefixOf ''Call me Example me now'' ''Example'' = ''Call me ''
   \<and> suffixOf ''Call me Example me now'' ''Example'' = '' me now''
   \<and> parameterizedMatch ''call me now''
         \<lparr>command_name = ''Call me Example me now'', has_parameter = True,
          parameter_name = Some ''Example'', workflow_id = (1::nat)\<rparr>
       = Some (Success ''Call me Example me now'' (Some ''me'') 1
           ''Ready to execute workflow with parameter'')"
proof -
  let ?c = "\<lparr>command_name = ''Call me Example me now'', has_parameter = True,
          parameter_name = Some ''Example'', workflow_id = (1::nat)\<rparr>"
  have p: "prefixOf ''Call me Example me now'' ''Example'' = ''Call me ''"
    by code_simp
  have s: "suffixOf ''Call me Example me now'' ''Example'' = '' me now''"
    by code_simp
  have h1: "has_parameter ?c" by simp
  have h2: "parameter_name ?c = Some ''Example''" by simp
  have h3: "''Example'' \<noteq> []" by simp
  have h4: "paramIndexOf (command_name ?c) ''Example'' \<noteq> - 1" by code_simp
  have c: "startsWith (toLowerCase ''call me now'')
             (toLowerCase (prefixOf (command_name ?c) ''Example''))
         \<and> endsWith (toLowerCase ''call me now'')
             (toLowerCase (suffixOf (command_name ?c) ''Example''))
         \<and> length ''call me now''
             < length (prefixOf (command_name ?c) ''Example'')
               + length (suffixOf (command_name ?c) ''Example'')"
    by code_simp
  have t: "trim (take (length ''Call me '' + length '' me now'' - length ''call me now'')
             (drop (length ''call me now'' - length '' me now'') ''call me now'')) = ''me''"
    by code_simp
  from overlap_is_not_checked [OF h1 h2 h3 h4, of "''call me now''", THEN conjunct2, THEN mp, OF c]
  have "parameterizedMatch ''call me now'' ?c =
      Some (Success ''Call me Example me now''
        (Some (trim (take (length ''Call me '' + length '' me now'' - length ''call me now'')
             (drop (length ''call me now'' - length '' me now'') ''call me now''))))
        1 ''Ready to execute workflow with parameter'')"
    unfolding Command.simps p s .
  then show ?thesis
    unfolding t using p s by simp
qed

subsection \<open>Exact matches come first\<close>

text \<open>
  The command \<open>!\<close> and the input \<open>!\<close> are the same text, and both clean to the
  empty string. The function returns on the empty cleaned input before it reads any
  command, so the command that equals the input after cleaning is not returned, as C5
  is stated for every input.
\<close>

theorem empty_input_precedes_exact_match:
  "\<not> has_parameter \<lparr>command_name = ''!'', has_parameter = False, parameter_name = None,
        workflow_id = (1::nat)\<rparr>
   \<and> toLowerCase (cleanTranscribedText (JSString ''!''))
       = toLowerCase (cleanTranscribedText (JSString (command_name
           \<lparr>command_name = ''!'', has_parameter = False, parameter_name = None,
            workflow_id = (1::nat)\<rparr>)))
   \<and> findMatchingCommand (JSString ''!'')
         [\<lparr>command_name = ''!'', has_parameter = False, parameter_name = None,
           workflow_id = (1::nat)\<rparr>]
       = Failure ''Empty command after cleaning''"
  by code_simp

text \<open>
  C5, for an input that is not empty after cleaning. If some command without a
  parameter equals the input after cleaning and lower-casing, the function returns the
  first such command of the list, with no parameter value; commands with a parameter,
  before it or after it in the list, play no part: the result is the result on the list
  without them. The first loop runs over all commands before the second one starts.
\<close>

theorem exact_match_before_parameterized:
  assumes nonempty: "cleanTranscribedText userInput \<noteq> []"
    and member: "c \<in> set rows"
    and plain: "\<not> has_parameter c"
    and same: "toLowerCase (cleanTranscribedText userInput)
                 = toLowerCase (cleanTranscribedText (JSString (command_name c)))"
  shows
    "(\<exists>pre c' post.
        rows = pre @ c' # post
        \<and> (\<forall>x\<in>set pre. exactMatch (cleanTranscribedText userInput) x = None)
        \<and> \<not> has_parameter c'
        \<and> toLowerCase (cleanTranscribedText userInput)
            = toLowerCase (cleanTranscribedText (JSString (command_name c')))
        \<and> findMatchingCommand userInput rows
            = Success (command_name c') None (workflow_id c') ''Ready to execute workflow'')
     \<and> findMatchingCommand userInput rows
         = findMatchingCommand userInput (filter (\<lambda>x. \<not> has_parameter x) rows)"
proof -
  let ?ci = "cleanTranscribedText userInput"
  let ?plain = "filter (\<lambda>x. \<not> has_parameter x) rows"
  from plain same have "exactMatch ?ci c \<noteq> None"
    by (simp add: exactMatch_def)
  with member have "exactMatches ?ci rows \<noteq> None"
    by (auto simp: exactMatches_None_iff)
  then obtain r where r: "exactMatches ?ci rows = Some r"
    by blast
  from member have rows: "rows \<noteq> []"
    by auto
  from member plain have plains: "?plain \<noteq> []"
    by (auto simp: filter_empty_conv)
  from r rows nonempty have res: "findMatchingCommand userInput rows = r"
    by (simp add: findMatchingCommand_nonempty)
  from r have "exactMatches ?ci ?plain = Some r"
    by (simp add: exactMatches_filter)
  with plains nonempty have "findMatchingCommand userInput ?plain = r"
    by (simp add: findMatchingCommand_nonempty)
  with res have second: "findMatchingCommand userInput rows = findMatchingCommand userInput ?plain"
    by simp
  from exactMatches_split [OF r] obtain pre c' post where
    split: "rows = pre @ c' # post" "\<forall>x\<in>set pre. exactMatch ?ci x = None"
    and c': "exactMatch ?ci c' = Some r"
    by blast
  from c' have "\<not> has_parameter c'"
    and "toLowerCase ?ci = toLowerCase (cleanTranscribedText (JSString (command_name c')))"
    and "r = Success (command_name c') None (workflow_id c') ''Ready to execute workflow''"
    by (simp_all add: exactMatch_Some_iff)
  with split res have first: "\<exists>pre c' post.
        rows = pre @ c' # post
        \<and> (\<forall>x\<in>set pre. exactMatch ?ci x = None)
        \<and> \<not> has_parameter c'
        \<and> toLowerCase ?ci = toLowerCase (cleanTranscribedText (JSString (command_name c')))
        \<and> findMatchingCommand userInput rows
            = Success (command_name c') None (workflow_id c') ''Ready to execute workflow''"
    by blast
  from first second show ?thesis
    by (rule conjI)
qed

text \<open>
  The command \<open>play Example\<close> with the parameter \<open>Example\<close> stands first in the
  list and would match the input \<open>play song\<close> with the parameter \<open>song\<close>; the
  command \<open>Play Song\<close> without a parameter is returned.
\<close>

theorem play_song_exact_match_wins:
  "parameterizedMatch ''play song''
       \<lparr>command_name = ''play Example'', has_parameter = True,
        parameter_name = Some ''Example'', workflow_id = (1::nat)\<rparr>
     = Some (Success ''play Example'' (Some ''song'') 1
         ''Ready to execute workflow with parameter'')
   \<and> findMatchingCommand (JSString ''play song'')
         [\<lparr>command_name = ''play Example'', has_parameter = True,
           parameter_name = Some ''Example'', workflow_id = (1::nat)\<rparr>,
          \<lparr>command_name = ''Play Song'', has_parameter = False,
           parameter_name = None, workflow_id = 2\<rparr>]
       = findMatchingCommand (JSString ''play song'')
         [\<lparr>command_name = ''Play Song'', has_parameter = False,
           parameter_name = None, workflow_id = (2::nat)\<rparr>]
   \<and> findMatchingCommand (JSString ''play song'')
         [\<lparr>command_name = ''play Example'', has_parameter = True,
           parameter_name = Some ''Example'', workflow_id = (1::nat)\<rparr>,
          \<lparr>command_name = ''Play Song'', has_parameter = False,
           parameter_name = None, workflow_id = 2\<rparr>]
       = Success ''Play Song'' None 2 ''Ready to execute workflow''"
proof -
  let ?p = "\<lparr>command_name = ''play Example'', has_parameter = True,
        parameter_name = Some ''Example'', workflow_id = (1::nat)\<rparr>"
  let ?e = "\<lparr>command_name = ''Play Song'', has_parameter = False,
           parameter_name = None, workflow_id = (2::nat)\<rparr>"
  have h1: "cleanTranscribedText (JSString ''play song'') \<noteq> []"
    by code_simp
  have h2: "?e \<in> set [?p, ?e]"
    by simp
  have h3: "\<not> has_parameter ?e"
    by simp
  have h4: "toLowerCase (cleanTranscribedText (JSString ''play song''))
      = toLowerCase (cleanTranscribedText (JSString (command_name ?e)))"
    by code_simp
  have could: "parameterizedMatch ''play song'' ?p
     = Some (Success ''play Example'' (Some ''song'') 1
         ''Ready to execute workflow with parameter'')"
    by code_simp
  have res: "findMatchingCommand (JSString ''play song'') [?e]
      = Success ''Play Song'' None 2 ''Ready to execute workflow''"
    by code_simp
  from exact_match_before_parameterized [OF h1 h2 h3 h4, THEN conjunct2]
  have "findMatchingCommand (JSString ''play song'') [?p, ?e]
      = findMatchingCommand (JSString ''play song'') [?e]"
    by simp
  with could res show ?thesis
    by simp
qed

subsection \<open>Exact matches ignore case\<close>

text \<open>
  The empty input and the command \<open>?\<close> both clean to the empty string, so their
  lower-case forms are equal, and the function reports the empty input instead of the
  success C6 states for every such pair.
\<close>

theorem empty_input_precedes_case_folding:
  "\<not> has_parameter \<lparr>command_name = ''?'', has_parameter = False, parameter_name = None,
        workflow_id = (1::nat)\<rparr>
   \<and> toLowerCase (cleanTranscribedText (JSString []))
       = toLowerCase (cleanTranscribedText (JSString ''?''))
   \<and> findMatchingCommand (JSString [])
         [\<lparr>command_name = ''?'', has_parameter = False, parameter_name = None,
           workflow_id = (1::nat)\<rparr>]
       = Failure ''Empty command after cleaning''"
  by code_simp

text \<open>
  C6, for an input that is not empty after cleaning. Exact matching is case-insensitive:
  when a command without a parameter has the same cleaned, lower-cased name as the
  cleaned, lower-cased input, the function returns a success with no parameter value;
  and when no command before it in the list matches exactly, it is this command's name
  and workflow id that are returned, whatever follows it in the list.
\<close>

theorem exact_match_ignores_case:
  assumes nonempty: "cleanTranscribedText userInput \<noteq> []"
    and plain: "\<not> has_parameter c"
    and same: "toLowerCase (cleanTranscribedText userInput)
                 = toLowerCase (cleanTranscribedText (JSString (command_name c)))"
  shows
    "(\<exists>command wid. findMatchingCommand userInput (pre @ c # post)
          = Success command None wid ''Ready to execute workflow'')
     \<and> ((\<forall>x\<in>set pre. exactMatch (cleanTranscribedText userInput) x = None) \<longrightarrow>
          findMatchingCommand userInput (pre @ c # post)
            = Success (command_name c) None (workflow_id c) ''Ready to execute workflow'')"
proof -
  let ?ci = "cleanTranscribedText userInput"
  let ?rows = "pre @ c # post"
  from plain same have c: "exactMatch ?ci c =
      Some (Success (command_name c) None (workflow_id c) ''Ready to execute workflow'')"
    by (simp add: exactMatch_def)
  have res: "findMatchingCommand userInput ?rows = r" if "exactMatches ?ci ?rows = Some r" for r
    using that nonempty by (simp add: findMatchingCommand_nonempty)
  have "exactMatches ?ci ?rows \<noteq> None"
    using c by (auto simp: exactMatches_None_iff)
  then obtain r where r: "exactMatches ?ci ?rows = Some r"
    by blast
  from exactMatches_split [OF r] obtain c' where "exactMatch ?ci c' = Some r"
    by blast
  then have "r = Success (command_name c') None (workflow_id c') ''Ready to execute workflow''"
    by (simp add: exactMatch_Some_iff)
  with res [OF r] have some: "\<exists>command wid. findMatchingCommand userInput ?rows
          = Success command None wid ''Ready to execute workflow''"
    by blast
  have first: "findMatchingCommand userInput ?rows
       = Success (command_name c) None (workflow_id c) ''Ready to execute workflow''"
    if "\<forall>x\<in>set pre. exactMatch ?ci x = None"
  proof -
    from that have "exactMatches ?ci ?rows = exactMatches ?ci (c # post)"
      by (rule exactMatches_skip)
    with c have "exactMatches ?ci ?rows
        = Some (Success (command_name c) None (workflow_id c) ''Ready to execute workflow'')"
      by simp
    then show ?thesis
      by (rule res)
  qed
  show ?thesis
    by (rule conjI [OF some], rule impI, rule first)
qed

text \<open>The input \<open>HELLO WORLD\<close> and the command \<open>hello world\<close>.\<close>

theorem hello_world_upper_case:
  "toLowerCase ''HELLO WORLD'' = toLowerCase ''hello world''
   \<and> findMatchingCommand (JSString ''HELLO WORLD'')
         [\<lparr>command_name = ''hello world'', has_parameter = False, parameter_name = None,
           workflow_id = (1::nat)\<rparr>]
       = Success ''hello world'' None 1 ''Ready to execute workflow''"
proof -
  let ?c = "\<lparr>command_name = ''hello world'', has_parameter = False, parameter_name = None,
           workflow_id = (1::nat)\<rparr>"
  have h1: "cleanTranscribedText (JSString ''HELLO WORLD'') \<noteq> []"
    by code_simp
  have h2: "\<not> has_parameter ?c"
    by simp
  have h3: "toLowerCase (cleanTranscribedText (JSString ''HELLO WORLD''))
      = toLowerCase (cleanTranscribedText (JSString (command_name ?c)))"
    by code_simp
  have h4: "\<forall>x\<in>set []. exactMatch (cleanTranscribedText (JSString ''HELLO WORLD'')) x = None"
    by simp
  have l: "toLowerCase ''HELLO WORLD'' = toLowerCase ''hello world''"
    by code_simp
  from exact_match_ignores_case [OF h1 h2 h3, of "[]" "[]", THEN conjunct2, THEN mp, OF h4]
  have "findMatchingCommand (JSString ''HELLO WORLD'') [?c]
      = Success ''hello world'' None 1 ''Ready to execute workflow''"
    by simp
  with l show ?thesis
    by simp
qed

subsection \<open>What a success holds\<close>

text \<open>A success is the \<open>return\<close> of one of the two loop bodies at a command of the list.\<close>

lemma findMatchingCommand_Success:
  assumes "findMatchingCommand userInput rows = Success command parameter wid message"
  shows "\<exists>c\<in>set rows.
           exactMatch (cleanTranscribedText userInput) c
             = Some (Success command parameter wid message)
           \<or> parameterizedMatch (cleanTranscribedText userInput) c
             = Some (Success command parameter wid message)"
proof -
  let ?ci = "cleanTranscribedText userInput"
  let ?r = "Success command parameter wid message"
  from assms have "success (findMatchingCommand userInput rows)"
    by simp
  then have ne: "?ci \<noteq> []" "rows \<noteq> []"
    by (auto dest: findMatchingCommand_success)
  show ?thesis
  proof (cases "exactMatches ?ci rows")
    case (Some r)
    with ne assms have "exactMatches ?ci rows = Some ?r"
      by (simp add: findMatchingCommand_nonempty)
    from exactMatches_split [OF this] show ?thesis
      by auto
  next
    case None
    with ne assms have "parameterizedMatches ?ci rows = Some ?r"
      by (auto simp: findMatchingCommand_nonempty split: option.splits)
    from parameterizedMatches_Some [OF this] show ?thesis
      by blast
  qed
qed

text \<open>
  When prefix and suffix fit into the input side by side, the input is a text that
  equals the prefix up to case, then the text \<open>substring\<close> cuts out, then a text
  that equals the suffix up to case.
\<close>

lemma middle_of_input:
  assumes sw: "startsWith (toLowerCase ci) (toLowerCase p)"
    and ew: "endsWith (toLowerCase ci) (toLowerCase s)"
    and fit: "length p + length s \<le> length ci"
  shows "\<exists>a m b. ci = a @ m @ b \<and> toLowerCase a = toLowerCase p \<and> toLowerCase b = toLowerCase s
           \<and> substring ci (int (length p)) (int (length ci) - int (length s)) = m"
proof -
  let ?a = "take (length p) ci"
  let ?b = "drop (length ci - length s) ci"
  let ?k = "length ci - length s - length p"
  let ?m = "take ?k (drop (length p) ci)"
  from fit have ls: "length s \<le> length ci" and lp: "length p \<le> length ci - length s"
    by arith+
  from sw have a: "toLowerCase ?a = toLowerCase p"
    by (simp add: startsWith_def toLowerCase_take length_toLowerCase)
  from ew have b: "toLowerCase ?b = toLowerCase s"
    by (simp add: endsWith_def toLowerCase_drop length_toLowerCase)
  from ls have e: "int (length ci) - int (length s) = int (length ci - length s)"
    by simp
  have m: "substring ci (int (length p)) (int (length ci) - int (length s)) = ?m"
    unfolding e by (rule substring_in_order) (use lp in simp_all)
  from lp have k: "?k + length p = length ci - length s"
    by arith
  have "drop ?k (drop (length p) ci) = drop (?k + length p) ci"
    by (rule drop_drop)
  then have "drop ?k (drop (length p) ci) = ?b"
    unfolding k .
  then have "?m @ ?b = drop (length p) ci"
    using append_take_drop_id [of ?k "drop (length p) ci"] by simp
  moreover have "ci = ?a @ drop (length p) ci"
    by simp
  ultimately have "ci = ?a @ ?m @ ?b"
    by (rule ssubst)
  with a b m show ?thesis
    by blast
qed

subsection \<open>The parameter value\<close>

text \<open>
  C7. A success with a parameter value comes from a command of the list that has a
  parameter: the cleaned input starts with its prefix and ends with its suffix, both
  up to case, and the value is \<open>substring\<close> of the cleaned input itself, from the
  length of the prefix to the length of the input less the length of the suffix,
  trimmed. Where prefix and suffix fit into the input side by side, the input is
  prefix, middle and suffix, and the value is the middle, in the input's own case,
  trimmed.
\<close>

theorem parameter_value_from_input:
  assumes "findMatchingCommand userInput rows = Success command (Some paramValue) wid message"
  shows "\<exists>c savedParam.
           c \<in> set rows \<and> has_parameter c \<and> parameter_name c = Some savedParam
           \<and> command = command_name c \<and> wid = workflow_id c
           \<and> startsWith (toLowerCase (cleanTranscribedText userInput))
                 (toLowerCase (prefixOf (command_name c) savedParam))
           \<and> endsWith (toLowerCase (cleanTranscribedText userInput))
                 (toLowerCase (suffixOf (command_name c) savedParam))
           \<and> paramValue =
                 trim (substring (cleanTranscribedText userInput)
                        (int (length (prefixOf (command_name c) savedParam)))
                        (int (length (cleanTranscribedText userInput))
                          - int (length (suffixOf (command_name c) savedParam))))
           \<and> (length (prefixOf (command_name c) savedParam)
                 + length (suffixOf (command_name c) savedParam)
                 \<le> length (cleanTranscribedText userInput) \<longrightarrow>
               (\<exists>a m b. cleanTranscribedText userInput = a @ m @ b
                  \<and> toLowerCase a = toLowerCase (prefixOf (command_name c) savedParam)
                  \<and> toLowerCase b = toLowerCase (suffixOf (command_name c) savedParam)
                  \<and> paramValue = trim m))"
proof -
  let ?ci = "cleanTranscribedText userInput"
  let ?r = "Success command (Some paramValue) wid message"
  from findMatchingCommand_Success [OF assms] obtain c where
    c: "c \<in> set rows" and how: "exactMatch ?ci c = Some ?r \<or> parameterizedMatch ?ci c = Some ?r"
    by blast
  have "exactMatch ?ci c \<noteq> Some ?r"
    by (simp add: exactMatch_Some_iff)
  with how have "parameterizedMatch ?ci c = Some ?r"
    by simp
  from parameterizedMatch_Some [OF this] obtain savedParam where
    hp: "has_parameter c" and pn: "parameter_name c = Some savedParam"
    and sw: "startsWith (toLowerCase ?ci) (toLowerCase (prefixOf (command_name c) savedParam))"
    and ew: "endsWith (toLowerCase ?ci) (toLowerCase (suffixOf (command_name c) savedParam))"
    and r: "?r = Success (command_name c)
             (Some (trim (substring ?ci (int (length (prefixOf (command_name c) savedParam)))
                (int (length ?ci) - int (length (suffixOf (command_name c) savedParam))))))
             (workflow_id c) ''Ready to execute workflow with parameter''"
    by blast
  let ?p = "prefixOf (command_name c) savedParam"
  let ?s = "suffixOf (command_name c) savedParam"
  from r have cmd: "command = command_name c" and w: "wid = workflow_id c"
    and pv: "paramValue = trim (substring ?ci (int (length ?p)) (int (length ?ci) - int (length ?s)))"
    by simp_all
  have mid: "\<exists>a m b. ?ci = a @ m @ b \<and> toLowerCase a = toLowerCase ?p
      \<and> toLowerCase b = toLowerCase ?s \<and> paramValue = trim m"
    if "length ?p + length ?s \<le> length ?ci"
  proof -
    from middle_of_input [OF sw ew that] obtain a m b where
      "?ci = a @ m @ b" "toLowerCase a = toLowerCase ?p" "toLowerCase b = toLowerCase ?s"
      "substring ?ci (int (length ?p)) (int (length ?ci) - int (length ?s)) = m"
      by blast
    with pv show ?thesis
      by blast
  qed
  from c hp pn cmd w sw ew pv mid show ?thesis
    by blast
qed

text \<open>
  The command \<open>Search Example On Youtube\<close> with the parameter \<open>Example\<close> and
  the input \<open>Search Batman On Youtube\<close>: the value is \<open>Batman\<close>.
\<close>

theorem search_batman_on_youtube:
  "findMatchingCommand (JSString ''Search Batman On Youtube'')
       [\<lparr>command_name = ''Search Example On Youtube'', has_parameter = True,
         parameter_name = Some ''Example'', workflow_id = (1::nat)\<rparr>]
     = Success ''Search Example On Youtube'' (Some ''Batman'') 1
         ''Ready to execute workflow with parameter''
   \<and> ''Batman'' = trim (substring ''Search Batman On Youtube'' 7 (24 - 11))
   \<and> (\<exists>a m b. ''Search Batman On Youtube'' = a @ m @ b
          \<and> toLowerCase a = toLowerCase ''Search ''
          \<and> toLowerCase b = toLowerCase '' On Youtube''
          \<and> ''Batman'' = trim m)"
proof -
  let ?c = "\<lparr>command_name = ''Search Example On Youtube'', has_parameter = True,
         parameter_name = Some ''Example'', workflow_id = (1::nat)\<rparr>"
  have res: "findMatchingCommand (JSString ''Search Batman On Youtube'') [?c]
     = Success ''Search Example On Youtube'' (Some ''Batman'') 1
         ''Ready to execute workflow with parameter''"
    by code_simp
  have ci: "cleanTranscribedText (JSString ''Search Batman On Youtube'')
      = ''Search Batman On Youtube''"
    by code_simp
  have p: "prefixOf ''Search Example On Youtube'' ''Example'' = ''Search ''"
    by code_simp
  have s: "suffixOf ''Search Example On Youtube'' ''Example'' = '' On Youtube''"
    by code_simp
  from parameter_value_from_input [OF res] obtain c savedParam where
    c: "c \<in> set [?c]" and pn: "parameter_name c = Some savedParam"
    and pv: "''Batman'' =
        trim (substring (cleanTranscribedText (JSString ''Search Batman On Youtube''))
          (int (length (prefixOf (command_name c) savedParam)))
          (int (length (cleanTranscribedText (JSString ''Search Batman On Youtube'')))
             - int (length (suffixOf (command_name c) savedParam))))"
    and mid: "length (prefixOf (command_name c) savedParam)
                 + length (suffixOf (command_name c) savedParam)
                 \<le> length (cleanTranscribedText (JSString ''Search Batman On Youtube'')) \<longrightarrow>
               (\<exists>a m b. cleanTranscribedText (JSString ''Search Batman On Youtube'') = a @ m @ b
                  \<and> toLowerCase a = toLowerCase (prefixOf (command_name c) savedParam)
                  \<and> toLowerCase b = toLowerCase (suffixOf (command_name c) savedParam)
                  \<and> ''Batman'' = trim m)"
    by blast
  from c have c': "c = ?c"
    by simp
  with pn have sp: "savedParam = ''Example''"
    by simp
  from pv have v: "''Batman'' = trim (substring ''Search Batman On Youtube'' 7 (24 - 11))"
    unfolding c' sp Command.simps ci p s by simp
  from mid have "\<exists>a m b. ''Search Batman On Youtube'' = a @ m @ b
          \<and> toLowerCase a = toLowerCase ''Search ''
          \<and> toLowerCase b = toLowerCase '' On Youtube''
          \<and> ''Batman'' = trim m"
    unfolding c' sp Command.simps ci p s by simp
  with res v show ?thesis
    by simp
qed

subsection \<open>The command returned\<close>

text \<open>
  C10. On every success, from either loop, the \<open>command\<close> of the result is the
  \<open>command_name\<close> of a command of the list as it is stored, not cleaned and not in
  lower case, and the \<open>workflow_id\<close> is that same command's: the command on which
  the loop body returned this result.
\<close>

theorem success_names_stored_command:
  assumes "findMatchingCommand userInput rows = Success command parameter wid message"
  shows "\<exists>c\<in>set rows.
           command = command_name c \<and> wid = workflow_id c
           \<and> (exactMatch (cleanTranscribedText userInput) c
                 = Some (Success command parameter wid message)
                \<or> parameterizedMatch (cleanTranscribedText userInput) c
                 = Some (Success command parameter wid message))"
proof -
  let ?ci = "cleanTranscribedText userInput"
  let ?r = "Success command parameter wid message"
  from findMatchingCommand_Success [OF assms] obtain c where
    c: "c \<in> set rows" and how: "exactMatch ?ci c = Some ?r \<or> parameterizedMatch ?ci c = Some ?r"
    by blast
  from how have "command = command_name c \<and> wid = workflow_id c"
  proof
    assume "exactMatch ?ci c = Some ?r"
    then show ?thesis
      by (simp add: exactMatch_Some_iff)
  next
    assume "parameterizedMatch ?ci c = Some ?r"
    from parameterizedMatch_Some [OF this] show ?thesis
      by auto
  qed
  with c how show ?thesis
    by blast
qed

text \<open>
  The stored name \<open>Hello, World\<close> is compared as \<open>hello world\<close> and returned
  with its comma and its capitals.
\<close>

theorem hello_world_stored_name:
  "cleanTranscribedText (JSString ''Hello, World'') = ''Hello World''
   \<and> findMatchingCommand (JSString ''hello world'')
         [\<lparr>command_name = ''Hello, World'', has_parameter = False, parameter_name = None,
           workflow_id = (7::nat)\<rparr>]
       = Success ''Hello, World'' None 7 ''Ready to execute workflow''
   \<and> (\<exists>c\<in>set [\<lparr>command_name = ''Hello, World'', has_parameter = False,
                    parameter_name = None, workflow_id = (7::nat)\<rparr>].
          ''Hello, World'' = command_name c \<and> 7 = workflow_id c)"
proof -
  let ?c = "\<lparr>command_name = ''Hello, World'', has_parameter = False, parameter_name = None,
           workflow_id = (7::nat)\<rparr>"
  have n: "cleanTranscribedText (JSString ''Hello, World'') = ''Hello World''"
    by code_simp
  have res: "findMatchingCommand (JSString ''hello world'') [?c]
       = Success ''Hello, World'' None 7 ''Ready to execute workflow''"
    by code_simp
  from success_names_stored_command [OF res]
  have "\<exists>c\<in>set [?c]. ''Hello, World'' = command_name c \<and> 7 = workflow_id c"
    by blast
  with n res show ?thesis
    by (intro conjI)
qed

subsection \<open>A parameter name that is not in the command name\<close>

text \<open>
  C8. A command with a parameter whose cleaned parameter name occurs nowhere in its
  cleaned name, case ignored, matches no input: the body of the second loop falls
  through on it, the body of the first does too, and both loops go on as if the
  command were not in the list. Alone in the list it gives a failure; with other
  commands the result is the result on the list without it. Every step on this path
  is a total string operation, so the model has no error value to return.
\<close>

theorem parameter_absent_from_command:
  assumes hp: "has_parameter c"
    and pn: "parameter_name c = Some savedParam"
    and absent: "\<not> (\<exists>u v. toLowerCase (cleanTranscribedText (JSString (command_name c)))
                     = u @ toLowerCase (cleanTranscribedText (JSString savedParam)) @ v)"
  shows "parameterizedMatch cleanedUserInput c = None
     \<and> exactMatch cleanedUserInput c = None
     \<and> parameterizedMatches cleanedUserInput (pre @ c # post)
         = parameterizedMatches cleanedUserInput (pre @ post)
     \<and> exactMatches cleanedUserInput (pre @ c # post) = exactMatches cleanedUserInput (pre @ post)
     \<and> \<not> success (findMatchingCommand userInput [c])
     \<and> (pre @ post \<noteq> [] \<longrightarrow>
          findMatchingCommand userInput (pre @ c # post) = findMatchingCommand userInput (pre @ post))"
proof -
  from absent have idx: "paramIndexOf (command_name c) savedParam = - 1"
    by (simp add: paramIndexOf_def Let_def indexOf_absent)
  have pm: "parameterizedMatch ci c = None" for ci
    using pn idx by (simp add: parameterizedMatch_def Let_def)
  have em: "exactMatch ci c = None" for ci
    using hp by (rule exactMatch_parameterized)
  have pms: "parameterizedMatches ci (pre @ c # post) = parameterizedMatches ci (pre @ post)" for ci
    using pm by (rule parameterizedMatches_drop)
  have ems: "exactMatches ci (pre @ c # post) = exactMatches ci (pre @ post)" for ci
    using em by (rule exactMatches_drop)
  have alone: "\<not> success (findMatchingCommand userInput [c])"
    by (simp add: findMatchingCommand_def Let_def pm em)
  have same: "findMatchingCommand userInput (pre @ c # post) = findMatchingCommand userInput (pre @ post)"
    if "pre @ post \<noteq> []"
    unfolding findMatchingCommand_def Let_def pms ems using that by (cases pre) simp_all
  from pm em pms ems alone same show ?thesis
    by (intro conjI impI)
qed

text \<open>
  The command \<open>turn on the lights\<close> with the parameter \<open>lamp\<close> matches nothing,
  and the command after it is still tried.
\<close>

theorem lights_command_without_its_parameter:
  "findMatchingCommand (JSString ''turn on the lamp'')
       [\<lparr>command_name = ''turn on the lights'', has_parameter = True,
         parameter_name = Some ''lamp'', workflow_id = (1::nat)\<rparr>]
     = Failure ''No matching command found''
   \<and> findMatchingCommand (JSString ''turn on the lamp'')
       [\<lparr>command_name = ''turn on the lights'', has_parameter = True,
         parameter_name = Some ''lamp'', workflow_id = (1::nat)\<rparr>,
        \<lparr>command_name = ''turn on the Example'', has_parameter = True,
         parameter_name = Some ''Example'', workflow_id = 2\<rparr>]
     = Success ''turn on the Example'' (Some ''lamp'') 2
         ''Ready to execute workflow with parameter''"
proof -
  let ?c = "\<lparr>command_name = ''turn on the lights'', has_parameter = True,
         parameter_name = Some ''lamp'', workflow_id = (1::nat)\<rparr>"
  let ?d = "\<lparr>command_name = ''turn on the Example'', has_parameter = True,
         parameter_name = Some ''Example'', workflow_id = (2::nat)\<rparr>"
  let ?u = "JSString ''turn on the lamp''"
  have h1: "has_parameter ?c"
    by simp
  have h2: "parameter_name ?c = Some ''lamp''"
    by simp
  have i: "indexOf (toLowerCase (cleanTranscribedText (JSString (command_name ?c))))
          (toLowerCase (cleanTranscribedText (JSString ''lamp''))) = - 1"
    by code_simp
  have h3: "\<not> (\<exists>u v. toLowerCase (cleanTranscribedText (JSString (command_name ?c)))
                     = u @ toLowerCase (cleanTranscribedText (JSString ''lamp'')) @ v)"
    using i by (rule iffD1 [OF indexOf_absent])
  note t = parameter_absent_from_command [OF h1 h2 h3, of _ "[]" "[?d]" ?u]
  have "[] @ [?d] \<noteq> []"
    by simp
  with t have "findMatchingCommand ?u ([] @ ?c # [?d]) = findMatchingCommand ?u ([] @ [?d])"
    by blast
  moreover have "findMatchingCommand ?u [?d]
      = Success ''turn on the Example'' (Some ''lamp'') 2
         ''Ready to execute workflow with parameter''"
    by code_simp
  ultimately have two: "findMatchingCommand ?u [?c, ?d]
      = Success ''turn on the Example'' (Some ''lamp'') 2
         ''Ready to execute workflow with parameter''"
    by simp
  have one: "findMatchingCommand ?u [?c] = Failure ''No matching command found''"
    by code_simp
  from one two show ?thesis
    by (rule conjI)
qed

end
